theory Spec2Isabelle
  imports Main "HOL-Library.Multiset" "HOL-Library.Sublist"
begin

section \<open>The aggregate node of the variable grammar (Agg.py)\<close>

text \<open>
  The class \<^verbatim>\<open>Agg\<close> (an ordered AND of child variables) is embedded method by method.
  Python objects are passed by reference and mutated in place; the model passes the
  objects explicitly and returns them updated. An exception is a value of the sum type,
  returned together with the objects as they are when it is raised.

  Logging calls (\<^verbatim>\<open>self._logger.debug\<close>, \<^verbatim>\<open>self.log.debug\<close>) are left out: they do not
  touch the node, the token or any collaborator.
\<close>

subsection \<open>Data\<close>

text \<open>
  A processing token. The two concrete classes \<^verbatim>\<open>VariableReadingToken\<close> and
  \<^verbatim>\<open>VariableWritingToken\<close> both extend \<^verbatim>\<open>AbstractVariableProcessingToken\<close>; the field
  \<open>kind\<close> says which class the object has. \<open>Ok\<close> is the success flag the aggregate
  reads and writes; the cursor, the value and the memory are only handled by the children.
\<close>

datatype tokenKind = Reading | Writing

record token =
  kind :: tokenKind
  Ok :: bool
  index :: nat
  tvalue :: string
  memory :: "(nat \<times> string) list"

text \<open>The classes named in the \<^verbatim>\<open>@typeCheck\<close> decorations of Agg.py.\<close>

datatype tokenClass =
  AbstractVariableProcessingToken | VariableReadingToken | VariableWritingToken

text \<open>The only exception Agg.py raises.\<close>

datatype exn = TypeError

text \<open>
  How a caller hands the token to a method: by position, as in \<^verbatim>\<open>node.read(token)\<close>, or
  by keyword, as in \<^verbatim>\<open>node.read(readingToken=token)\<close>.
\<close>

datatype passing = Positional | Keyword

text \<open>
  A child is a reference to another variable object. What the child does when one of its
  methods is called is not part of Agg.py (children are leaves, alternatives, repetitions
  or other aggregates): the record \<open>collab\<close> holds the behaviour of the referenced
  objects. A child's methods are taken to depend on the token they receive only.
\<close>

type_synonym ref = nat

text \<open>
  A pattern, as the pattern builder composes it. \<open>Literal\<close> and \<open>AnyRun\<close> are the two
  kinds of leaf pattern of the docstring of \<^verbatim>\<open>buildRegex\<close> (a fixed value, a run of any
  bytes between two lengths); \<open>Aggregate\<close> is what the builder returns.
\<close>

datatype pattern = Literal string | AnyRun nat nat | Aggregate "pattern list"

record collab =
  childIsDefined :: "ref \<Rightarrow> token \<Rightarrow> bool"
  childRead :: "ref \<Rightarrow> token \<Rightarrow> token"
  childWrite :: "ref \<Rightarrow> token \<Rightarrow> token"
  childBuildRegex :: "ref \<Rightarrow> pattern"
  readPriority :: "ref \<Rightarrow> token \<Rightarrow> nat"

text \<open>
  The aggregate object itself: the fields of \<^verbatim>\<open>AbstractVariableNode\<close> that Agg.py uses.
  \<open>children\<close> is the ordered list of child references (the same child may occur twice),
  \<open>currentValue\<close> may be Python's \<^verbatim>\<open>None\<close>, and \<open>tokenChoppedIndexes\<close> are the references
  into the written token that locate this node's final value.
\<close>

record agg =
  children :: "ref list"
  mutable :: bool
  currentValue :: "string option"
  tokenChoppedIndexes :: "nat list"

text \<open>
  Every call the aggregate makes on a helper of its base class or on a child is recorded,
  in the order of the calls. \<open>Notify k vs\<close> is the call
  \<^verbatim>\<open>notifyBoundedVariables(k, token, *vs)\<close>: \<open>vs\<close> are the arguments after the token.
\<close>

datatype event =
    ResetTokenChoppedIndexes
  | SortChildrenToRead
  | ShuffleChildren
  | ChildIsDefined ref
  | ChildRead ref
  | ChildWrite ref
  | Notify string "string option list"

text \<open>
  The state a method call runs in: the aggregate, the calls made so far, and the numbers
  the random generator will draw next.
\<close>

record state =
  node :: agg
  trace :: "event list"
  rng :: "nat list"

text \<open>
  The result of a call: the exception or the returned value, the object that was passed
  as the token (\<open>None\<close> is Python's \<^verbatim>\<open>None\<close>) as the call leaves it, and the state.
\<close>

type_synonym 'a result = "(exn + 'a) \<times> token option \<times> state"

subsection \<open>Helpers that are not in Agg.py\<close>

text \<open>
  Modelled from the spec: the decorator \<^verbatim>\<open>typeCheck\<close> of
  \<^verbatim>\<open>netzob.Common.Utils.Decorators\<close> is missing. The spec says of the argument check
  only that an absent token is a contract error that aborts the call before any state
  mutation; it has no sentence on a token of another kind. Agg.py hands the decorator
  the class the argument is expected to have and documents
  \<^verbatim>\<open>:raise: TypeError if parameter is not Valid\<close>. The decorator inspects the arguments
  the caller passes by position: one that is present and not an instance of the class
  raises \<^verbatim>\<open>TypeError\<close> before the method body runs. An argument passed by keyword is not
  inspected, and \<^verbatim>\<open>None\<close> is handed on; both reach the body, whose own first statement
  rejects \<^verbatim>\<open>None\<close>. Every property below is about an absent token or a token of the
  method's own kind, for which the decorator hands the argument on however it is passed.
\<close>

fun isinstance :: "token option \<Rightarrow> tokenClass \<Rightarrow> bool" where
  "isinstance None c = False"
| "isinstance (Some t) AbstractVariableProcessingToken = True"
| "isinstance (Some t) VariableReadingToken = (kind t = Reading)"
| "isinstance (Some t) VariableWritingToken = (kind t = Writing)"

definition typeCheck ::
  "tokenClass \<Rightarrow> (token option \<Rightarrow> state \<Rightarrow> 'a result) \<Rightarrow>
     passing \<Rightarrow> token option \<Rightarrow> state \<Rightarrow> 'a result" where
  "typeCheck c f how arg s =
     (if how = Positional \<and> arg \<noteq> None \<and> \<not> isinstance arg c then (Inl TypeError, arg, s)
      else f arg s)"

text \<open>
  Modelled from the spec: \<^verbatim>\<open>AbstractVariableNode.readChildren\<close> is missing. The children
  are read sequentially against the same token; the flag is checked after each delegated
  call and the next child is not attempted once it is false. The loop returns the token
  and the children it has called, in order.
\<close>

fun readLoop :: "collab \<Rightarrow> ref list \<Rightarrow> token \<Rightarrow> token \<times> ref list" where
  "readLoop cb [] t = (t, [])"
| "readLoop cb (c # cs) t =
     (let t' = childRead cb c t in
      if Ok t' then (let (t'', called) = readLoop cb cs t' in (t'', c # called))
      else (t', [c]))"

definition readChildren :: "collab \<Rightarrow> token \<Rightarrow> state \<Rightarrow> token \<times> state" where
  "readChildren cb t s =
     (let (t', called) = readLoop cb (children (node s)) t in
      (t', s\<lparr>trace := trace s @ map ChildRead called\<rparr>))"

text \<open>
  Modelled from the spec: \<^verbatim>\<open>AbstractVariableNode.writeChildren\<close> is missing. Sequential
  delegation with the same stop-on-first-failure semantics as read.
\<close>

fun writeLoop :: "collab \<Rightarrow> ref list \<Rightarrow> token \<Rightarrow> token \<times> ref list" where
  "writeLoop cb [] t = (t, [])"
| "writeLoop cb (c # cs) t =
     (let t' = childWrite cb c t in
      if Ok t' then (let (t'', called) = writeLoop cb cs t' in (t'', c # called))
      else (t', [c]))"

definition writeChildren :: "collab \<Rightarrow> token \<Rightarrow> state \<Rightarrow> token \<times> state" where
  "writeChildren cb t s =
     (let (t', called) = writeLoop cb (children (node s)) t in
      (t', s\<lparr>trace := trace s @ map ChildWrite called\<rparr>))"

text \<open>
  Modelled from the spec: \<^verbatim>\<open>sortChildrenToRead\<close> is missing. It computes a read-specific
  ordering of the children by a sort key appropriate to parsing; the key of a child under
  the token is \<open>readPriority\<close>, and the sort is the stable insertion sort. The list of
  children of the node is replaced by the sorted one.
\<close>

definition sortChildrenToRead :: "collab \<Rightarrow> token \<Rightarrow> state \<Rightarrow> state" where
  "sortChildrenToRead cb t s =
     s\<lparr>node := (node s)\<lparr>children := sort_key (\<lambda>c. readPriority cb c t) (children (node s))\<rparr>,
       trace := trace s @ [SortChildrenToRead]\<rparr>"

text \<open>
  Modelled from the spec: \<^verbatim>\<open>shuffleChildren\<close> is missing. The children are put in a
  randomly shuffled order: the exchange shuffle of Python's \<^verbatim>\<open>random.shuffle\<close>, which for
  \<open>i\<close> from the last index down to 1 draws \<open>j\<close> in \<open>0..i\<close> and exchanges the elements at
  \<open>i\<close> and \<open>j\<close>. The draws come from \<open>rng\<close> (0 when it is used up).
\<close>

fun draw :: "nat list \<Rightarrow> nat \<Rightarrow> nat \<times> nat list" where
  "draw [] n = (0, [])"
| "draw (r # rs) n = (r mod n, rs)"

fun shuffle :: "nat \<Rightarrow> nat list \<Rightarrow> 'a list \<Rightarrow> 'a list \<times> nat list" where
  "shuffle 0 rs xs = (xs, rs)"
| "shuffle (Suc i) rs xs =
     (if Suc i < length xs then
        (let (j, rs') = draw rs (Suc (Suc i)) in
         shuffle i rs' (xs[Suc i := xs ! j, j := xs ! Suc i]))
      else shuffle i rs xs)"

definition shuffleChildren :: "state \<Rightarrow> state" where
  "shuffleChildren s =
     (let (cs, rs) = shuffle (length (children (node s)) - 1) (rng s) (children (node s)) in
      s\<lparr>node := (node s)\<lparr>children := cs\<rparr>, trace := trace s @ [ShuffleChildren], rng := rs\<rparr>)"

text \<open>
  Modelled from the spec: \<^verbatim>\<open>resetTokenChoppedIndexes\<close> is missing. It resets the
  previously computed final value and its index references: the node keeps its final
  value as references into the token, and the reset clears them.
\<close>

definition resetTokenChoppedIndexes :: "state \<Rightarrow> state" where
  "resetTokenChoppedIndexes s =
     s\<lparr>node := (node s)\<lparr>tokenChoppedIndexes := []\<rparr>,
       trace := trace s @ [ResetTokenChoppedIndexes]\<rparr>"

text \<open>
  Modelled from the spec: \<^verbatim>\<open>notifyBoundedVariables\<close> is missing. It broadcasts one event
  of the given kind to the listeners of the node; the broadcast is recorded.
\<close>

definition notifyBoundedVariables :: "string \<Rightarrow> token \<Rightarrow> string option list \<Rightarrow> state \<Rightarrow> state" where
  "notifyBoundedVariables k t vs s = s\<lparr>trace := trace s @ [Notify k vs]\<rparr>"

text \<open>Modelled from the spec: the accessor \<^verbatim>\<open>isMutable\<close> is missing; it returns the flag.\<close>

definition isMutable :: "agg \<Rightarrow> bool" where
  "isMutable n = mutable n"

text \<open>
  Modelled from the spec: \<^verbatim>\<open>NetzobRegex.buildRegexForAggregateRegexes\<close> is missing. The
  pattern builder takes an ordered sequence of child patterns and returns one combined
  pattern representing their ordered concatenation.
\<close>

definition buildRegexForAggregateRegexes :: "pattern list \<Rightarrow> pattern" where
  "buildRegexForAggregateRegexes regexes = Aggregate regexes"

text \<open>
  Modelled from the spec: the matching of a pattern is an external capability. A literal
  matches its own bytes, a run matches any bytes of a length within its bounds, and an
  aggregate pattern matches a string that splits into consecutive parts matched by its
  sub-patterns in order.
\<close>

fun matches :: "pattern \<Rightarrow> string \<Rightarrow> bool" where
  "matches (Literal l) s = (s = l)"
| "matches (AnyRun lo hi) s = (lo \<le> length s \<and> length s \<le> hi)"
| "matches (Aggregate []) s = (s = [])"
| "matches (Aggregate (p # ps)) s =
     list_ex (\<lambda>k. matches p (take k s) \<and> matches (Aggregate ps) (drop k s)) [0..<Suc (length s)]"

subsection \<open>The methods of Agg.py\<close>

text \<open>\<^verbatim>\<open>Agg.isDefined\<close>: the loop over the children, with the children it has asked.\<close>

fun isDefinedLoop :: "collab \<Rightarrow> ref list \<Rightarrow> token \<Rightarrow> bool \<times> ref list" where
  "isDefinedLoop cb [] t = (True, [])"
| "isDefinedLoop cb (c # cs) t =
     (if \<not> childIsDefined cb c t then (False, [c])
      else (let (r, asked) = isDefinedLoop cb cs t in (r, c # asked)))"

definition isDefined_body :: "collab \<Rightarrow> token option \<Rightarrow> state \<Rightarrow> bool result" where
  "isDefined_body cb processingToken s =
     (case processingToken of
        None \<Rightarrow> (Inl TypeError, processingToken, s)
      | Some t \<Rightarrow>
          if length (children (node s)) > 0 then
            (let (r, asked) = isDefinedLoop cb (children (node s)) t in
             (Inr r, processingToken, s\<lparr>trace := trace s @ map ChildIsDefined asked\<rparr>))
          else (Inr False, processingToken, s))"

definition isDefined :: "collab \<Rightarrow> passing \<Rightarrow> token option \<Rightarrow> state \<Rightarrow> bool result" where
  "isDefined cb = typeCheck AbstractVariableProcessingToken (isDefined_body cb)"

text \<open>\<^verbatim>\<open>Agg.read\<close>.\<close>

definition read_body :: "collab \<Rightarrow> token option \<Rightarrow> state \<Rightarrow> unit result" where
  "read_body cb readingToken s =
     (case readingToken of
        None \<Rightarrow> (Inl TypeError, readingToken, s)
      | Some t \<Rightarrow>
          (let (t1, s1) =
                 (if length (children (node s)) > 0 then
                    (if mutable (node s) then readChildren cb t (sortChildrenToRead cb t s)
                     else readChildren cb t s)
                  else (t\<lparr>Ok := False\<rparr>, s));
               s2 = (if Ok t1 then notifyBoundedVariables ''read'' t1 [currentValue (node s1)] s1
                     else s1)
           in (Inr (), Some t1, s2)))"

definition read :: "collab \<Rightarrow> passing \<Rightarrow> token option \<Rightarrow> state \<Rightarrow> unit result" where
  "read cb = typeCheck VariableReadingToken (read_body cb)"

text \<open>\<^verbatim>\<open>Agg.write\<close> (\<open>write\<close> is a reserved word of Isabelle, hence the prime).\<close>

definition write_body :: "collab \<Rightarrow> token option \<Rightarrow> state \<Rightarrow> unit result" where
  "write_body cb writingToken s =
     (case writingToken of
        None \<Rightarrow> (Inl TypeError, writingToken, s)
      | Some t \<Rightarrow>
          (let s0 = resetTokenChoppedIndexes s;
               (t1, s1) =
                 (if length (children (node s0)) > 0 then
                    (if isMutable (node s0) then writeChildren cb t (shuffleChildren s0)
                     else writeChildren cb t s0)
                  else (t\<lparr>Ok := False\<rparr>, s0));
               s2 = (if Ok t1 then notifyBoundedVariables ''write'' t1 [] s1 else s1)
           in (Inr (), Some t1, s2)))"

definition write' :: "collab \<Rightarrow> passing \<Rightarrow> token option \<Rightarrow> state \<Rightarrow> unit result" where
  "write' cb = typeCheck VariableWritingToken (write_body cb)"

text \<open>\<^verbatim>\<open>Agg.buildRegex\<close>.\<close>

definition buildRegex :: "collab \<Rightarrow> agg \<Rightarrow> pattern" where
  "buildRegex cb n =
     (let regexes = map (childBuildRegex cb) (children n) in
      buildRegexForAggregateRegexes regexes)"

subsection \<open>Reading a trace\<close>

text \<open>The calls a method has added to the trace, between the state before and the state after.\<close>

definition newEvents :: "state \<Rightarrow> state \<Rightarrow> event list" where
  "newEvents s s' = drop (length (trace s)) (trace s')"

fun isNotify :: "event \<Rightarrow> bool" where
  "isNotify (Notify k vs) = True"
| "isNotify e = False"

text \<open>The children on which a method has been called, in the order of the calls.\<close>

fun calledChildren :: "event list \<Rightarrow> ref list" where
  "calledChildren [] = []"
| "calledChildren (ChildIsDefined c # es) = c # calledChildren es"
| "calledChildren (ChildRead c # es) = c # calledChildren es"
| "calledChildren (ChildWrite c # es) = c # calledChildren es"
| "calledChildren (e # es) = calledChildren es"

subsection \<open>A concrete aggregate\<close>

text \<open>
  Three kinds of children for the examples: child 5 is undefined and fails to read and to
  write; every other child is defined, reads by advancing the cursor and writes by
  appending a byte. Child 3 has the pattern of the fixed value \<^verbatim>\<open>hello\<close>, the others
  the pattern of a run of 5 to 10 bytes. The read priority of a child is its number.
\<close>

definition demoCollab :: collab where
  "demoCollab =
     \<lparr>childIsDefined = (\<lambda>c t. c \<noteq> 5),
      childRead = (\<lambda>c t. if c = 5 then t\<lparr>Ok := False\<rparr> else t\<lparr>index := Suc (index t)\<rparr>),
      childWrite = (\<lambda>c t. if c = 5 then t\<lparr>Ok := False\<rparr> else t\<lparr>tvalue := tvalue t @ ''x''\<rparr>),
      childBuildRegex = (\<lambda>c. if c = 3 then Literal ''hello'' else AnyRun 5 10),
      readPriority = (\<lambda>c t. c)\<rparr>"

definition demoToken :: "tokenKind \<Rightarrow> token" where
  "demoToken k = \<lparr>kind = k, Ok = True, index = 0, tvalue = [], memory = []\<rparr>"

definition demoState :: "ref list \<Rightarrow> bool \<Rightarrow> state" where
  "demoState cs m =
     \<lparr>node = \<lparr>children = cs, mutable = m, currentValue = Some ''v'', tokenChoppedIndexes = [7]\<rparr>,
      trace = [], rng = [1, 0, 2]\<rparr>"

section \<open>Properties\<close>

subsection \<open>The delegation loops\<close>

lemma readLoop_prefix: "readLoop cb cs t = (t', called) \<Longrightarrow> prefix called cs"
proof (induction cs arbitrary: t t' called)
  case Nil
  then show ?case by simp
next
  case (Cons c cs)
  show ?case
  proof (cases "Ok (childRead cb c t)")
    case True
    obtain t2 called2 where r: "readLoop cb cs (childRead cb c t) = (t2, called2)"
      by (cases "readLoop cb cs (childRead cb c t)")
    with Cons.prems True have "called = c # called2" by simp
    with Cons.IH[OF r] show ?thesis by simp
  next
    case False
    with Cons.prems show ?thesis by auto
  qed
qed

lemma readLoop_all: "readLoop cb cs t = (t', called) \<Longrightarrow> cs \<noteq> [] \<Longrightarrow> Ok t' \<Longrightarrow> called = cs"
proof (induction cs arbitrary: t t' called)
  case Nil
  then show ?case by simp
next
  case (Cons c cs)
  show ?case
  proof (cases "Ok (childRead cb c t)")
    case True
    obtain t2 called2 where r: "readLoop cb cs (childRead cb c t) = (t2, called2)"
      by (cases "readLoop cb cs (childRead cb c t)")
    with Cons.prems True have e: "called = c # called2" "t' = t2" by simp_all
    show ?thesis
    proof (cases cs)
      case Nil
      with r e show ?thesis by simp
    next
      case (Cons d ds)
      then have "cs \<noteq> []" by simp
      from Cons.IH[OF r this] e Cons.prems(3) show ?thesis by simp
    qed
  next
    case False
    with Cons.prems show ?thesis by auto
  qed
qed

lemma readLoop_stop:
  "\<forall>i<length pre. Ok (fold (childRead cb) (take (Suc i) pre) t) \<Longrightarrow>
   \<not> Ok (childRead cb b (fold (childRead cb) pre t)) \<Longrightarrow>
   readLoop cb (pre @ b # post) t = (childRead cb b (fold (childRead cb) pre t), pre @ [b])"
proof (induction pre arbitrary: t)
  case Nil
  then show ?case by simp
next
  case (Cons a pre)
  from Cons.prems(1) have a: "Ok (childRead cb a t)" by auto
  have "\<forall>i<length pre. Ok (fold (childRead cb) (take (Suc i) pre) (childRead cb a t))"
    using Cons.prems(1) by auto
  with Cons.IH[of "childRead cb a t"] Cons.prems(2) a show ?case by simp
qed

lemma readLoop_fold:
  "readLoop cb cs t = (t', called) \<Longrightarrow> cs \<noteq> [] \<Longrightarrow>
   called \<noteq> [] \<and> t' = fold (childRead cb) called t \<and>
   (\<forall>i. Suc i < length called \<longrightarrow> Ok (fold (childRead cb) (take (Suc i) called) t))"
proof (induction cs arbitrary: t t' called)
  case Nil
  then show ?case by simp
next
  case (Cons c cs)
  show ?case
  proof (cases "Ok (childRead cb c t)")
    case True
    obtain t2 called2 where r: "readLoop cb cs (childRead cb c t) = (t2, called2)"
      by (cases "readLoop cb cs (childRead cb c t)")
    with Cons.prems True have e: "called = c # called2" "t' = t2" by simp_all
    show ?thesis
    proof (cases cs)
      case Nil
      with r e show ?thesis by simp
    next
      case (Cons d ds)
      then have "cs \<noteq> []" by simp
      from Cons.IH [OF r this]
      have f: "t2 = fold (childRead cb) called2 (childRead cb c t)"
        and o: "\<forall>i. Suc i < length called2 \<longrightarrow>
                 Ok (fold (childRead cb) (take (Suc i) called2) (childRead cb c t))"
        by simp_all
      have "Ok (fold (childRead cb) (take (Suc i) called) t)" if "Suc i < length called" for i
      proof (cases i)
        case 0
        with True e show ?thesis by simp
      next
        case (Suc j)
        with that e have "Suc j < length called2" by simp
        with o have "Ok (fold (childRead cb) (take (Suc j) called2) (childRead cb c t))" by blast
        with Suc e show ?thesis by simp
      qed
      with e f show ?thesis by simp
    qed
  next
    case False
    with Cons.prems show ?thesis by auto
  qed
qed

lemma writeLoop_readLoop: "writeLoop cb cs t = readLoop (cb\<lparr>childRead := childWrite cb\<rparr>) cs t"
  by (induction cs arbitrary: t) (simp_all add: Let_def)

lemma writeLoop_prefix: "writeLoop cb cs t = (t', called) \<Longrightarrow> prefix called cs"
  unfolding writeLoop_readLoop by (rule readLoop_prefix)

lemma writeLoop_all: "writeLoop cb cs t = (t', called) \<Longrightarrow> cs \<noteq> [] \<Longrightarrow> Ok t' \<Longrightarrow> called = cs"
  unfolding writeLoop_readLoop by (rule readLoop_all)

lemma writeLoop_fold:
  "writeLoop cb cs t = (t', called) \<Longrightarrow> cs \<noteq> [] \<Longrightarrow>
   called \<noteq> [] \<and> t' = fold (childWrite cb) called t \<and>
   (\<forall>i. Suc i < length called \<longrightarrow> Ok (fold (childWrite cb) (take (Suc i) called) t))"
  using readLoop_fold [of "cb\<lparr>childRead := childWrite cb\<rparr>" cs t t' called]
  by (simp add: writeLoop_readLoop)

lemma mset_shuffle: "mset (fst (shuffle i rs xs)) = mset xs"
proof (induction i rs xs rule: shuffle.induct)
  case (1 rs xs)
  then show ?case by simp
next
  case (2 i rs xs)
  show ?case
  proof (cases "Suc i < length xs")
    case True
    obtain j rs' where d: "draw rs (Suc (Suc i)) = (j, rs')" by (cases "draw rs (Suc (Suc i))")
    have "j < Suc (Suc i)" using d by (cases rs) auto
    with True have j: "j < length xs" by simp
    have "mset (xs[Suc i := xs ! j, j := xs ! Suc i]) = mset xs"
      using mset_swap[OF j True] .
    with 2(1)[OF True d[symmetric] refl] True d show ?thesis by simp
  next
    case False
    with 2(2) show ?thesis by simp
  qed
qed


lemma mset_shuffled_children:
  "mset (children (node (shuffleChildren s))) = mset (children (node s))"
  using mset_shuffle [of "length (children (node s)) - 1" "rng s" "children (node s)"]
  by (auto simp: shuffleChildren_def split: prod.splits)

lemma children_reset: "children (node (resetTokenChoppedIndexes s)) = children (node s)"
  by (simp add: resetTokenChoppedIndexes_def)

lemma sort_key_Nil_iff: "sort_key f xs = [] \<longleftrightarrow> xs = []"
  by (metis length_sort length_0_conv)

lemma sorted_children_empty:
  "children (node (if mutable (node s) then sortChildrenToRead cb t s else s)) = []
   \<longleftrightarrow> children (node s) = []"
  by (simp add: sortChildrenToRead_def sort_key_Nil_iff)

subsection \<open>Traces\<close>

lemma calledChildren_append: "calledChildren (es @ fs) = calledChildren es @ calledChildren fs"
  by (induction es rule: calledChildren.induct) simp_all

lemma calledChildren_ChildRead: "calledChildren (map ChildRead cs) = cs"
  by (induction cs) simp_all


lemma isNotify_ChildRead: "filter isNotify (map ChildRead cs) = []"
  by (induction cs) simp_all


subsection \<open>The methods in closed form\<close>

lemma read_no_children:
  "kind t = Reading \<Longrightarrow> children (node s) = [] \<Longrightarrow>
   read cb how (Some t) s = (Inr (), Some (t\<lparr>Ok := False\<rparr>), s)"
  by (simp add: read_def typeCheck_def read_body_def)

lemma write_no_children:
  "kind t = Writing \<Longrightarrow> children (node s) = [] \<Longrightarrow>
   write' cb how (Some t) s = (Inr (), Some (t\<lparr>Ok := False\<rparr>), resetTokenChoppedIndexes s)"
  by (simp add: write'_def typeCheck_def write_body_def resetTokenChoppedIndexes_def)

lemma read_closed_form:
  assumes "kind t = Reading" and "children (node s) \<noteq> []"
    and "readLoop cb (children (node (if mutable (node s) then sortChildrenToRead cb t s else s))) t
           = (t', called)"
  shows "read cb how (Some t) s =
    (Inr (), Some t',
     s\<lparr>node := node (if mutable (node s) then sortChildrenToRead cb t s else s),
       trace := trace s @ (if mutable (node s) then [SortChildrenToRead] else [])
                @ map ChildRead called
                @ (if Ok t' then [Notify ''read'' [currentValue (node s)]] else [])\<rparr>)"
proof (cases "mutable (node s)")
  case True
  with assms show ?thesis
    by (simp add: read_def typeCheck_def read_body_def readChildren_def sortChildrenToRead_def
        notifyBoundedVariables_def)
next
  case False
  with assms show ?thesis
    by (simp add: read_def typeCheck_def read_body_def readChildren_def
        notifyBoundedVariables_def)
qed

lemma write_closed_form:
  assumes "kind t = Writing" and "children (node s) \<noteq> []"
    and "s0 = (if mutable (node s) then shuffleChildren (resetTokenChoppedIndexes s)
               else resetTokenChoppedIndexes s)"
    and "writeLoop cb (children (node s0)) t = (t', called)"
  shows "write' cb how (Some t) s =
    (Inr (), Some t',
     s0\<lparr>trace := trace s @ ResetTokenChoppedIndexes # (if mutable (node s) then [ShuffleChildren] else [])
                @ map ChildWrite called
                @ (if Ok t' then [Notify ''write'' []] else [])\<rparr>)"
proof (cases "mutable (node s)")
  case True
  with assms show ?thesis
    by (simp add: write'_def typeCheck_def write_body_def writeChildren_def shuffleChildren_def
        resetTokenChoppedIndexes_def notifyBoundedVariables_def isMutable_def split: prod.splits)
next
  case False
  with assms show ?thesis
    by (simp add: write'_def typeCheck_def write_body_def writeChildren_def
        resetTokenChoppedIndexes_def notifyBoundedVariables_def isMutable_def)
qed


lemma write_summary:
  assumes k: "kind t = Writing" and r: "write' cb how (Some t) s = (r, Some t', s')"
  shows "\<exists>called.
      trace s' = trace s @ ResetTokenChoppedIndexes #
                 (if mutable (node s) \<and> children (node s) \<noteq> [] then [ShuffleChildren] else [])
                 @ map ChildWrite called
                 @ (if Ok t' then [Notify ''write'' []] else []) \<and>
      prefix called (children (node s')) \<and>
      (Ok t' \<longrightarrow> called = children (node s')) \<and>
      mset (children (node s')) = mset (children (node s)) \<and>
      (\<not> mutable (node s) \<longrightarrow> node s' = node (resetTokenChoppedIndexes s) \<and> rng s' = rng s) \<and>
      r = Inr () \<and>
      (children (node s) \<noteq> [] \<longrightarrow> called \<noteq> [] \<and> t' = fold (childWrite cb) called t) \<and>
      (\<forall>i. Suc i < length called \<longrightarrow> Ok (fold (childWrite cb) (take (Suc i) called) t))"
proof (cases "children (node s) = []")
  case True
  from write_no_children [OF k True, of cb how] r True show ?thesis
    by (auto simp: resetTokenChoppedIndexes_def)
next
  case False
  let ?w = "if mutable (node s) then shuffleChildren (resetTokenChoppedIndexes s)
             else resetTokenChoppedIndexes s"
  obtain t1 called where l: "writeLoop cb (children (node ?w)) t = (t1, called)"
    by (cases "writeLoop cb (children (node ?w)) t")
  have ms: "mset (children (node ?w)) = mset (children (node s))"
    using mset_shuffled_children [of "resetTokenChoppedIndexes s"] by (simp add: children_reset)
  have ne: "children (node ?w) \<noteq> []"
  proof
    assume "children (node ?w) = []"
    with ms have "mset (children (node s)) = {#}" by simp
    with False show False by simp
  qed
  from write_closed_form [OF k False refl l, where how = how] r
  have t: "t' = t1" and s': "s' = ?w\<lparr>trace := trace s @ ResetTokenChoppedIndexes #
          (if mutable (node s) then [ShuffleChildren] else [])
          @ map ChildWrite called
          @ (if Ok t1 then [Notify ''write'' []] else [])\<rparr>" and ri: "r = Inr ()"
    by simp_all
  have n: "node s' = node ?w" by (simp add: s')
  have "trace s' = trace s @ ResetTokenChoppedIndexes #
                 (if mutable (node s) \<and> children (node s) \<noteq> [] then [ShuffleChildren] else [])
                 @ map ChildWrite called
                 @ (if Ok t' then [Notify ''write'' []] else [])"
    using False t by (simp add: s')
  moreover have "prefix called (children (node s'))"
    using writeLoop_prefix [OF l] unfolding n .
  moreover have "Ok t' \<longrightarrow> called = children (node s')"
    using writeLoop_all [OF l ne] t unfolding n by simp
  moreover have "mset (children (node s')) = mset (children (node s))"
    using ms unfolding n .
  moreover have "\<not> mutable (node s) \<longrightarrow> node s' = node (resetTokenChoppedIndexes s) \<and> rng s' = rng s"
    by (simp add: s' resetTokenChoppedIndexes_def)
  moreover have "called \<noteq> [] \<and> t' = fold (childWrite cb) called t \<and>
      (\<forall>i. Suc i < length called \<longrightarrow> Ok (fold (childWrite cb) (take (Suc i) called) t))"
    using writeLoop_fold [OF l ne] t by simp
  ultimately show ?thesis using ri by blast
qed


lemma write_frame:
  assumes k: "kind t = Writing"
  shows "write' cb how (Some t) (s\<lparr>node := (node s)\<lparr>tokenChoppedIndexes := ix\<rparr>, trace := tr\<rparr>) =
     (case write' cb how (Some t) s of (r, tok, s') \<Rightarrow> (r, tok, s'\<lparr>trace := tr @ newEvents s s'\<rparr>))"
proof (cases "children (node s) = []")
  case True
  let ?u = "s\<lparr>node := (node s)\<lparr>tokenChoppedIndexes := ix\<rparr>, trace := tr\<rparr>"
  from True have "children (node ?u) = []" by simp
  from write_no_children [OF k this, of cb how] write_no_children [OF k True, of cb how]
  show ?thesis by (simp add: newEvents_def resetTokenChoppedIndexes_def)
next
  case False
  let ?u = "s\<lparr>node := (node s)\<lparr>tokenChoppedIndexes := ix\<rparr>, trace := tr\<rparr>"
  let ?w = "if mutable (node s) then shuffleChildren (resetTokenChoppedIndexes s)
             else resetTokenChoppedIndexes s"
  let ?v = "if mutable (node ?u) then shuffleChildren (resetTokenChoppedIndexes ?u)
             else resetTokenChoppedIndexes ?u"
  obtain t1 called where l: "writeLoop cb (children (node ?w)) t = (t1, called)"
    by (cases "writeLoop cb (children (node ?w)) t")
  have u0: "?v = ?w\<lparr>trace := tr @ newEvents s ?w\<rparr>"
    by (simp add: shuffleChildren_def resetTokenChoppedIndexes_def newEvents_def
        split: prod.splits)
  then have "node ?v = node ?w" by simp
  with l have l': "writeLoop cb (children (node ?v)) t = (t1, called)" by simp
  have ne: "children (node ?u) \<noteq> []" using False by simp
  have m: "mutable (node ?u) = mutable (node s)" by simp
  from write_closed_form [OF k False refl l, where how = how] write_closed_form [OF k ne refl l', where how = how] u0
  show ?thesis by (simp add: newEvents_def)
qed

subsection \<open>Runs of the concrete aggregate\<close>

lemma demoToken_kind: "kind (demoToken k) = k"
  by (simp add: demoToken_def)




lemma demo_write_mutable:
  "write' demoCollab Positional (Some (demoToken Writing)) (demoState [3, 7, 9] True) =
     (Inr (), Some \<lparr>kind = Writing, Ok = True, index = 0, tvalue = ''xxx'', memory = []\<rparr>,
      \<lparr>node = \<lparr>children = [9, 3, 7], mutable = True, currentValue = Some ''v'',
                tokenChoppedIndexes = []\<rparr>,
       trace = [ResetTokenChoppedIndexes, ShuffleChildren, ChildWrite 9, ChildWrite 3,
                ChildWrite 7, Notify ''write'' []],
       rng = [2]\<rparr>)"
  by code_simp


lemma demo_write_fails:
  "write' demoCollab Positional (Some (demoToken Writing)) (demoState [3, 5, 9] False) =
     (Inr (), Some \<lparr>kind = Writing, Ok = False, index = 0, tvalue = ''x'', memory = []\<rparr>,
      \<lparr>node = \<lparr>children = [3, 5, 9], mutable = False, currentValue = Some ''v'',
                tokenChoppedIndexes = []\<rparr>,
       trace = [ResetTokenChoppedIndexes, ChildWrite 3, ChildWrite 5],
       rng = [1, 0, 2]\<rparr>)"
  by code_simp

subsection \<open>Argument checks\<close>

text \<open>
  C9: each of \<^verbatim>\<open>isDefined\<close>, \<^verbatim>\<open>read\<close> and \<^verbatim>\<open>write\<close>, called with an absent token
  (\<^verbatim>\<open>None\<close>, however it is passed), raises \<^verbatim>\<open>TypeError\<close>. The exception is the outcome of the call (nothing
  in the method catches it), and the node, the trace of calls and the random source are
  as they were before the call: nothing has been mutated and nobody has been called.
\<close>

theorem absent_token_raises:
  "isDefined cb how None s = (Inl TypeError, None, s) \<and>
   read cb how None s = (Inl TypeError, None, s) \<and>
   write' cb how None s = (Inl TypeError, None, s)"
  by (simp add: isDefined_def read_def write'_def typeCheck_def
      isDefined_body_def read_body_def write_body_def)

subsection \<open>An aggregate without children\<close>

text \<open>
  C2: on an aggregate with zero children, \<^verbatim>\<open>read\<close> with a reading token and \<^verbatim>\<open>write\<close> with
  a writing token return with the success flag of the token set to false. No child is
  called and nobody is notified: \<^verbatim>\<open>read\<close> leaves the state as it was, and the only call
  \<^verbatim>\<open>write\<close> makes is the reset of the chopped indexes. Nothing is assumed of the mutable
  flag, so this holds for the mutable and the non-mutable aggregate.
\<close>

theorem no_children_fails:
  "children (node s) = [] \<Longrightarrow>
   (kind t = Reading \<longrightarrow> read cb how (Some t) s = (Inr (), Some (t\<lparr>Ok := False\<rparr>), s)) \<and>
   (kind t = Writing \<longrightarrow>
      write' cb how (Some t) s = (Inr (), Some (t\<lparr>Ok := False\<rparr>), resetTokenChoppedIndexes s) \<and>
      newEvents s (resetTokenChoppedIndexes s) = [ResetTokenChoppedIndexes])"
  by (simp add: read_def write'_def typeCheck_def read_body_def write_body_def
      resetTokenChoppedIndexes_def newEvents_def)

theorem no_children_fails_witness:
  "read demoCollab Positional (Some (demoToken Reading)) (demoState [] True)
     = (Inr (), Some ((demoToken Reading)\<lparr>Ok := False\<rparr>), demoState [] True) \<and>
   read demoCollab Positional (Some (demoToken Reading)) (demoState [] False)
     = (Inr (), Some ((demoToken Reading)\<lparr>Ok := False\<rparr>), demoState [] False) \<and>
   write' demoCollab Positional (Some (demoToken Writing)) (demoState [] True)
     = (Inr (), Some ((demoToken Writing)\<lparr>Ok := False\<rparr>),
        resetTokenChoppedIndexes (demoState [] True)) \<and>
   write' demoCollab Positional (Some (demoToken Writing)) (demoState [] False)
     = (Inr (), Some ((demoToken Writing)\<lparr>Ok := False\<rparr>),
        resetTokenChoppedIndexes (demoState [] False))"
proof -
  have c: "children (node (demoState [] m)) = []" for m by (simp add: demoState_def)
  have k: "kind (demoToken k) = k" for k by (simp add: demoToken_def)
  from k
    no_children_fails [OF c [of True], where t = "demoToken Reading" and cb = demoCollab
      and how = Positional]
    no_children_fails [OF c [of False], where t = "demoToken Reading" and cb = demoCollab
      and how = Positional]
    no_children_fails [OF c [of True], where t = "demoToken Writing" and cb = demoCollab
      and how = Positional]
    no_children_fails [OF c [of False], where t = "demoToken Writing" and cb = demoCollab
      and how = Positional]
  show ?thesis by simp
qed

subsection \<open>Stopping at the first failure\<close>

text \<open>
  C1: during a read the children are called one after the other on the same token, and
  once a child has left the success flag false no further child is called. Let the
  children, in the order in which the read processes them (the declared order, or the
  sorted one when the aggregate is mutable), be \<open>pre @ b # post\<close>, where every child of
  \<open>pre\<close> leaves the flag true and \<open>b\<close> leaves it false. Then the children called are
  exactly \<open>pre @ [b]\<close>: no child of \<open>post\<close> is called after \<open>b\<close>. The token is the one
  \<open>b\<close> has left, with the flag false, and nobody is notified. For children \<open>[A, B, C]\<close>
  where \<open>B\<close> fails, \<open>C\<close> is never called.
\<close>

theorem read_stop_on_failure:
  assumes "kind t = Reading"
    and "s0 = (if mutable (node s) then sortChildrenToRead cb t s else s)"
    and "children (node s0) = pre @ b # post"
    and "\<forall>i<length pre. Ok (fold (childRead cb) (take (Suc i) pre) t)"
    and "\<not> Ok (childRead cb b (fold (childRead cb) pre t))"
  shows "read cb how (Some t) s =
           (Inr (), Some (childRead cb b (fold (childRead cb) pre t)),
            s0\<lparr>trace := trace s0 @ map ChildRead (pre @ [b])\<rparr>) \<and>
         calledChildren (newEvents s (snd (snd (read cb how (Some t) s)))) = pre @ [b] \<and>
         filter isNotify (newEvents s (snd (snd (read cb how (Some t) s)))) = []"
proof -
  let ?tB = "childRead cb b (fold (childRead cb) pre t)"
  have ne: "children (node s) \<noteq> []"
    using assms(2,3) sorted_children_empty[of s cb t] by auto
  have loop: "readLoop cb (children (node s0)) t = (?tB, pre @ [b])"
    unfolding assms(3) using assms(4,5) by (rule readLoop_stop)
  have r: "read cb how (Some t) s =
      (Inr (), Some ?tB, s0\<lparr>trace := trace s0 @ map ChildRead (pre @ [b])\<rparr>)"
    using read_closed_form [OF assms(1) ne loop [unfolded assms(2)], where how = how] assms(2,5)
    by (cases "mutable (node s)") (simp_all add: sortChildrenToRead_def)
  have tr: "trace s0 @ map ChildRead (pre @ [b]) =
      trace s @ (if mutable (node s) then [SortChildrenToRead] else []) @ map ChildRead (pre @ [b])"
    using assms(2) by (simp add: sortChildrenToRead_def)
  show ?thesis
    unfolding r using tr
    by (simp add: newEvents_def calledChildren_append calledChildren_ChildRead
        isNotify_ChildRead del: map_append)
qed

theorem read_stop_on_failure_witness:
  "read demoCollab Positional (Some (demoToken Reading)) (demoState [3, 5, 7] False) =
     (Inr (), Some ((demoToken Reading)\<lparr>Ok := False, index := 1\<rparr>),
      (demoState [3, 5, 7] False)\<lparr>trace := [ChildRead 3, ChildRead 5]\<rparr>) \<and>
   calledChildren (newEvents (demoState [7, 5, 3] True)
     (snd (snd (read demoCollab Positional (Some (demoToken Reading)) (demoState [7, 5, 3] True))))) = [3, 5]"
proof -
  have k: "kind (demoToken Reading) = Reading" by (simp add: demoToken_def)
  have c1: "children (node (demoState [3, 5, 7] False)) = [3] @ 5 # [7]"
    by (simp add: demoState_def)
  have s1: "demoState [3, 5, 7] False =
      (if mutable (node (demoState [3, 5, 7] False))
       then sortChildrenToRead demoCollab (demoToken Reading) (demoState [3, 5, 7] False)
       else demoState [3, 5, 7] False)"
    by (simp add: demoState_def)
  have c2: "children (node (sortChildrenToRead demoCollab (demoToken Reading)
      (demoState [7, 5, 3] True))) = [3] @ 5 # [7]"
    by (simp add: demoState_def sortChildrenToRead_def demoCollab_def)
  have s2: "sortChildrenToRead demoCollab (demoToken Reading) (demoState [7, 5, 3] True) =
      (if mutable (node (demoState [7, 5, 3] True))
       then sortChildrenToRead demoCollab (demoToken Reading) (demoState [7, 5, 3] True)
       else demoState [7, 5, 3] True)"
    by (simp add: demoState_def)
  have p: "\<forall>i<length [3::nat]. Ok (fold (childRead demoCollab) (take (Suc i) [3]) (demoToken Reading))"
    by (simp add: demoCollab_def demoToken_def)
  have f: "\<not> Ok (childRead demoCollab 5 (fold (childRead demoCollab) [3] (demoToken Reading)))"
    by (simp add: demoCollab_def demoToken_def)
  have a: "read demoCollab Positional (Some (demoToken Reading)) (demoState [3, 5, 7] False) =
     (Inr (), Some ((demoToken Reading)\<lparr>Ok := False, index := 1\<rparr>),
      (demoState [3, 5, 7] False)\<lparr>trace := [ChildRead 3, ChildRead 5]\<rparr>)"
    using read_stop_on_failure [OF k s1 c1 p f, THEN conjunct1]
    by (simp add: demoCollab_def demoToken_def demoState_def)
  have b: "calledChildren (newEvents (demoState [7, 5, 3] True)
     (snd (snd (read demoCollab Positional (Some (demoToken Reading)) (demoState [7, 5, 3] True))))) = [3, 5]"
    using read_stop_on_failure [OF k s2 c2 p f, THEN conjunct2, THEN conjunct1] by simp
  from a b show ?thesis by (rule conjI)
qed

subsection \<open>Definedness\<close>

lemma isDefinedLoop_eq:
  "isDefinedLoop cb cs t =
     ((\<forall>c\<in>set cs. childIsDefined cb c t),
      takeWhile (\<lambda>c. childIsDefined cb c t) cs @ take 1 (dropWhile (\<lambda>c. childIsDefined cb c t) cs))"
  by (induction cs) simp_all

text \<open>
  C3: for a token that is present, \<^verbatim>\<open>isDefined\<close> returns true if and only if the aggregate
  has at least one child and every child reports itself defined under that token. The
  children are asked in order, up to and including the first undefined one and no
  further; the token is returned as it was and the state only gains the record of these
  calls. The returned boolean is the same for any two aggregates whose children are a
  permutation of each other (the children's own answers depending on the token only).
\<close>

theorem isDefined_all_children:
  "isDefined cb how (Some t) s =
     (Inr (children (node s) \<noteq> [] \<and> (\<forall>c\<in>set (children (node s)). childIsDefined cb c t)),
      Some t,
      s\<lparr>trace := trace s @ map ChildIsDefined
         (takeWhile (\<lambda>c. childIsDefined cb c t) (children (node s)) @
          take 1 (dropWhile (\<lambda>c. childIsDefined cb c t) (children (node s))))\<rparr>) \<and>
   (mset (children (node s2)) = mset (children (node s)) \<longrightarrow>
      fst (isDefined cb how (Some t) s2) = fst (isDefined cb how (Some t) s))"
proof -
  have eq: "isDefined cb how (Some t) s =
     (Inr (children (node s) \<noteq> [] \<and> (\<forall>c\<in>set (children (node s)). childIsDefined cb c t)),
      Some t,
      s\<lparr>trace := trace s @ map ChildIsDefined
         (takeWhile (\<lambda>c. childIsDefined cb c t) (children (node s)) @
          take 1 (dropWhile (\<lambda>c. childIsDefined cb c t) (children (node s))))\<rparr>)" for s
    by (cases "children (node s)")
      (simp_all add: isDefined_def typeCheck_def isDefined_body_def isDefinedLoop_eq)
  have perm: "fst (isDefined cb how (Some t) s2) = fst (isDefined cb how (Some t) s)"
    if m: "mset (children (node s2)) = mset (children (node s))"
  proof -
    from m have "set (children (node s2)) = set (children (node s))" by (rule mset_eq_setD)
    moreover from m have "children (node s2) = [] \<longleftrightarrow> children (node s) = []"
      by (metis mset_zero_iff)
    ultimately show ?thesis by (simp add: eq)
  qed
  from eq perm show ?thesis by blast
qed

theorem isDefined_all_children_witness:
  "isDefined demoCollab Positional (Some (demoToken Reading)) (demoState [3, 5, 7] False) =
     (Inr False, Some (demoToken Reading),
      (demoState [3, 5, 7] False)\<lparr>trace := [ChildIsDefined 3, ChildIsDefined 5]\<rparr>) \<and>
   fst (isDefined demoCollab Positional (Some (demoToken Reading)) (demoState [7, 3, 5] False)) = Inr False \<and>
   fst (isDefined demoCollab Positional (Some (demoToken Reading)) (demoState [7, 3] False)) = Inr True"
proof -
  have m: "mset (children (node (demoState [7, 3, 5] False)))
         = mset (children (node (demoState [3, 5, 7] False)))"
    by (simp add: demoState_def)
  have a: "isDefined demoCollab Positional (Some (demoToken Reading)) (demoState [3, 5, 7] False) =
     (Inr False, Some (demoToken Reading),
      (demoState [3, 5, 7] False)\<lparr>trace := [ChildIsDefined 3, ChildIsDefined 5]\<rparr>)"
    using isDefined_all_children [where cb = demoCollab and how = Positional and t = "demoToken Reading"
        and s = "demoState [3, 5, 7] False" and ?s2.0 = "demoState [7, 3, 5] False", THEN conjunct1]
    by (simp add: demoState_def demoCollab_def)
  have b: "fst (isDefined demoCollab Positional (Some (demoToken Reading)) (demoState [7, 3, 5] False))
         = Inr False"
    using isDefined_all_children [where cb = demoCollab and how = Positional and t = "demoToken Reading"
        and s = "demoState [3, 5, 7] False" and ?s2.0 = "demoState [7, 3, 5] False", THEN conjunct2]
      m a by simp
  have c: "fst (isDefined demoCollab Positional (Some (demoToken Reading)) (demoState [7, 3] False)) = Inr True"
    using isDefined_all_children [where cb = demoCollab and how = Positional and t = "demoToken Reading"
        and s = "demoState [7, 3] False" and ?s2.0 = "demoState [7, 3] False", THEN conjunct1]
    by (simp add: demoState_def demoCollab_def)
  from a b c show ?thesis by simp
qed

subsection \<open>Notification\<close>



subsection \<open>The order in which the children are processed\<close>



subsection \<open>The reset at the start of a write\<close>

text \<open>
  C7: for a writing token, the first call \<^verbatim>\<open>write\<close> makes is the reset of the chopped
  indexes, before any shuffle, any child and any notification, whether or not the
  aggregate has children and whether the write then succeeds or fails. The outcome of the
  write does not depend on the index references the node held before the call.
\<close>

theorem write_resets_first:
  assumes "kind t = Writing" and "write' cb how (Some t) s = (r, tok', s')"
  shows "r = Inr () \<and>
         trace s' = trace s @ newEvents s s' \<and>
         take 1 (newEvents s s') = [ResetTokenChoppedIndexes] \<and>
         write' cb how (Some t) (s\<lparr>node := (node s)\<lparr>tokenChoppedIndexes := ix\<rparr>\<rparr>)
           = write' cb how (Some t) s"
proof -
  obtain t' where tok: "tok' = Some t'"
    using assms
    by (cases tok') (auto simp: write'_def typeCheck_def write_body_def Let_def split: prod.splits)
  from write_summary [OF assms(1) assms(2) [unfolded tok]] obtain called where
    tr: "trace s' = trace s @ ResetTokenChoppedIndexes #
           (if mutable (node s) \<and> children (node s) \<noteq> [] then [ShuffleChildren] else [])
           @ map ChildWrite called
           @ (if Ok t' then [Notify ''write'' []] else [])"
    and r: "r = Inr ()"
    by blast
  have a: "trace s' = trace s @ newEvents s s'" and b: "take 1 (newEvents s s') = [ResetTokenChoppedIndexes]"
    unfolding newEvents_def tr by simp_all
  have "write' cb how (Some t) (s\<lparr>node := (node s)\<lparr>tokenChoppedIndexes := ix\<rparr>, trace := trace s\<rparr>)
      = write' cb how (Some t) s"
    unfolding write_frame [OF assms(1)] assms(2) using a by simp
  then have c: "write' cb how (Some t) (s\<lparr>node := (node s)\<lparr>tokenChoppedIndexes := ix\<rparr>\<rparr>)
      = write' cb how (Some t) s" by simp
  from r a b c show ?thesis by simp
qed

theorem write_resets_first_witness:
  "take 1 (newEvents (demoState [3, 5, 9] False)
      (snd (snd (write' demoCollab Positional (Some (demoToken Writing)) (demoState [3, 5, 9] False)))))
     = [ResetTokenChoppedIndexes] \<and>
   take 1 (newEvents (demoState [3, 7, 9] True)
      (snd (snd (write' demoCollab Positional (Some (demoToken Writing)) (demoState [3, 7, 9] True)))))
     = [ResetTokenChoppedIndexes] \<and>
   write' demoCollab Positional (Some (demoToken Writing))
      ((demoState [3, 5, 9] False)\<lparr>node := (node (demoState [3, 5, 9] False))\<lparr>tokenChoppedIndexes := [9]\<rparr>\<rparr>)
     = write' demoCollab Positional (Some (demoToken Writing)) (demoState [3, 5, 9] False)"
proof -
  note a = write_resets_first [OF demoToken_kind demo_write_fails, where ix = "[9]"]
  note b = write_resets_first [OF demoToken_kind demo_write_mutable, where ix = "[9]"]
  from a b show ?thesis by (simp add: demo_write_fails demo_write_mutable)
qed

subsection \<open>Pattern derivation\<close>

lemma matches_Aggregate:
  "matches (Aggregate ps) s \<longleftrightarrow> (\<exists>ss. s = concat ss \<and> list_all2 matches ps ss)"
proof (induction ps arbitrary: s)
  case Nil
  then show ?case by auto
next
  case (Cons p ps)
  show ?case
  proof
    assume "matches (Aggregate (p # ps)) s"
    then obtain k where k: "matches p (take k s)" "matches (Aggregate ps) (drop k s)"
      unfolding matches.simps list_ex_iff by blast
    then obtain ss where ss: "drop k s = concat ss" "list_all2 matches ps ss"
      using Cons.IH by blast
    have "s = take k s @ drop k s" by simp
    with ss(1) have "s = concat (take k s # ss)" by simp
    with k(1) ss(2) have "s = concat (take k s # ss) \<and> list_all2 matches (p # ps) (take k s # ss)"
      by simp
    then show "\<exists>ss. s = concat ss \<and> list_all2 matches (p # ps) ss" by blast
  next
    assume "\<exists>ss. s = concat ss \<and> list_all2 matches (p # ps) ss"
    then obtain ss where ss: "s = concat ss" "list_all2 matches (p # ps) ss" by blast
    then obtain x xs where x: "ss = x # xs" "matches p x" "list_all2 matches ps xs"
      by (auto simp: list_all2_Cons1)
    then have "matches (Aggregate ps) (concat xs)" using Cons.IH by blast
    with x ss(1) have "matches p (take (length x) s) \<and> matches (Aggregate ps) (drop (length x) s)"
      by simp
    moreover have "length s = length x + length (concat xs)" using ss(1) x(1) by simp
    then have le: "length x \<le> length s" by linarith
    have "length x \<in> set [0..<Suc (length s)]"
      unfolding set_upt atLeastLessThan_iff using le by linarith
    ultimately show "matches (Aggregate (p # ps)) s"
      unfolding matches.simps list_ex_iff by blast
  qed
qed

lemma buildRegex_eq: "buildRegex cb n = Aggregate (map (childBuildRegex cb) (children n))"
  by (simp add: buildRegex_def buildRegexForAggregateRegexes_def)

text \<open>
  C6: \<^verbatim>\<open>buildRegex\<close> is a function of the current children only: two nodes with the same
  children have the same pattern, whatever their other fields, and the mutable flag in
  particular is not consulted. It takes no token and returns nothing but the pattern. The
  pattern is what the pattern builder makes of the children's patterns in the order of
  the list, and it matches a string exactly when the string is the concatenation of
  parts, one per child and in order, each matched by the pattern of its child.
\<close>

theorem buildRegex_concatenation:
  "(children n' = children n \<longrightarrow> buildRegex cb n' = buildRegex cb n) \<and>
   buildRegex cb (n\<lparr>mutable := m\<rparr>) = buildRegex cb n \<and>
   buildRegex cb n = buildRegexForAggregateRegexes (map (childBuildRegex cb) (children n)) \<and>
   (matches (buildRegex cb n) str \<longleftrightarrow>
      (\<exists>parts. str = concat parts \<and>
         list_all2 (\<lambda>c part. matches (childBuildRegex cb c) part) (children n) parts))"
proof -
  have "matches (buildRegex cb n) str \<longleftrightarrow>
      (\<exists>parts. str = concat parts \<and>
         list_all2 (\<lambda>c part. matches (childBuildRegex cb c) part) (children n) parts)"
    unfolding buildRegex_eq matches_Aggregate by (simp add: list_all2_map1)
  then show ?thesis
    by (simp add: buildRegex_eq buildRegexForAggregateRegexes_def)
qed

theorem buildRegex_concatenation_witness:
  "buildRegex demoCollab (node (demoState [3, 7] True))
     = buildRegex demoCollab (node (demoState [3, 7] False)) \<and>
   matches (buildRegex demoCollab (node (demoState [3, 7] False))) ''hello, world''"
proof -
  let ?n = "node (demoState [3, 7] False)"
  let ?n' = "node (demoState [3, 7] True)"
  note th = buildRegex_concatenation [where n = ?n and n' = ?n' and cb = demoCollab
      and str = "''hello, world''"]
  have c: "children ?n' = children ?n" by (simp add: demoState_def)
  from th c have a: "buildRegex demoCollab ?n' = buildRegex demoCollab ?n" by blast
  have "''hello, world'' = concat [''hello'', '', world''] \<and>
     list_all2 (\<lambda>c part. matches (childBuildRegex demoCollab c) part) (children ?n)
       [''hello'', '', world'']"
    by (simp add: demoState_def demoCollab_def)
  then have "\<exists>parts. ''hello, world'' = concat parts \<and>
     list_all2 (\<lambda>c part. matches (childBuildRegex demoCollab c) part) (children ?n) parts"
    by (rule exI)
  with th have b: "matches (buildRegex demoCollab ?n) ''hello, world''" by blast
  from a b show ?thesis by (rule conjI)
qed

text \<open>
  C8: on an aggregate with zero children \<^verbatim>\<open>buildRegex\<close> returns the pattern the builder
  makes of the empty sequence, which is neutral: it matches the empty string and nothing
  else. In contrast, \<^verbatim>\<open>read\<close> and \<^verbatim>\<open>write\<close> on an aggregate with zero children return
  with the success flag false.
\<close>

theorem buildRegex_no_children:
  "children n = [] \<Longrightarrow>
   buildRegex cb n = buildRegexForAggregateRegexes [] \<and>
   (matches (buildRegex cb n) str \<longleftrightarrow> str = []) \<and>
   (kind t = Reading \<and> children (node s) = [] \<longrightarrow>
      fst (read cb how (Some t) s) = Inr () \<and> fst (snd (read cb how (Some t) s)) = Some (t\<lparr>Ok := False\<rparr>)) \<and>
   (kind t = Writing \<and> children (node s) = [] \<longrightarrow>
      fst (write' cb how (Some t) s) = Inr () \<and> fst (snd (write' cb how (Some t) s)) = Some (t\<lparr>Ok := False\<rparr>))"
  by (simp add: buildRegex_eq buildRegexForAggregateRegexes_def read_no_children write_no_children)

theorem buildRegex_no_children_witness:
  "buildRegex demoCollab (node (demoState [] False)) = Aggregate [] \<and>
   matches (buildRegex demoCollab (node (demoState [] False))) [] \<and>
   fst (snd (read demoCollab Positional (Some (demoToken Reading)) (demoState [] False)))
     = Some ((demoToken Reading)\<lparr>Ok := False\<rparr>)"
proof -
  have c: "children (node (demoState [] False)) = []" by (simp add: demoState_def)
  have k: "kind (demoToken Reading) = Reading" by (simp add: demoToken_def)
  from buildRegex_no_children [OF c, where cb = demoCollab and how = Positional and str = "[]"
      and t = "demoToken Reading" and s = "demoState [] False"] c k
  show ?thesis by (simp add: buildRegexForAggregateRegexes_def)
qed

end
